theory Spec2Isabelle
  imports Main "HOL-Library.Signed_Division"
begin

section \<open>gobuffer: a growable, checkpointable FIFO buffer\<close>

text \<open>
  The repository holds two revisions of the same \<open>Buffer[T]\<close>: \<open>buffer.go\<close> with the
  consuming surface (\<open>Read\<close>, \<open>Unread\<close>) and a constructor that returns an error, and a
  second file with the lookahead surface (\<open>Next\<close>, \<open>Consume\<close>, \<open>Buffered\<close>) and a
  constructor that panics. \<open>position\<close>, \<open>State\<close>, \<open>Write\<close>, \<open>Rollback\<close>, \<open>Commit\<close>,
  \<open>Grow\<close> and \<open>bufferPos\<close> are the same text in both. Both surfaces are embedded over one
  record.

  Go's \<open>int\<close> is modelled as \<open>int\<close>: a position counts elements written, the code moves
  positions by \<open>+1\<close> and \<open>-1\<close> only, and every element occupies memory, so 64-bit
  wrap-around is out of reach. Go's \<open>/\<close> and \<open>%\<close> truncate towards zero and panic on a
  zero divisor; they are \<open>sdiv\<close> and \<open>smod\<close> behind a zero test. Run-time panics
  (index out of range, slice bounds out of range, \<open>make\<close> with a negative size, integer
  division by zero, a method called on a nil buffer, an explicit \<open>panic\<close>) are the
  left injection of a sum.
\<close>

subsection \<open>Positions\<close>

datatype panic =
    DivideByZero
  | IndexOutOfRange
  | SliceBoundsOutOfRange
  | MakeSliceOutOfRange
  | NilDereference
  | PanicRowSize int
  | PanicRows int

record position =
  rowSize :: int
  Row :: int
  Col :: int

definition AbsolutePos :: "position \<Rightarrow> int" where
  "AbsolutePos p = Row p * rowSize p + Col p"

definition Move :: "position \<Rightarrow> int \<Rightarrow> panic + position" where
  "Move p steps =
     (let absPos = AbsolutePos p + steps;
          absPos = (if absPos < 0 then 0 else absPos)
      in if rowSize p = 0 then Inl DivideByZero
         else Inr (p\<lparr>Row := absPos sdiv rowSize p, Col := absPos smod rowSize p\<rparr>))"

subsection \<open>Checkpoints\<close>

datatype error = IllegalStateError | ZeroStateError | RowSizeError int

record State =
  sread :: position
  swrite :: position
  init :: bool

definition zero :: "State \<Rightarrow> bool" where
  "zero s = (\<not> init s)"

definition newState :: "position \<Rightarrow> position \<Rightarrow> State" where
  "newState rd wr = \<lparr>sread = rd, swrite = wr, init = True\<rparr>"

text \<open>Go's \<open>State{}\<close> and \<open>position{}\<close>: every field at its zero value.\<close>

definition zeroPosition :: position where
  "zeroPosition = \<lparr>rowSize = 0, Row = 0, Col = 0\<rparr>"

definition zeroState :: State where
  "zeroState = \<lparr>sread = zeroPosition, swrite = zeroPosition, init = False\<rparr>"

subsection \<open>The buffer\<close>

text \<open>
  The element type \<open>T\<close> is any type with a zero value, written \<open>0\<close>: what \<open>make([]T, n)\<close>
  fills a fresh row with and what a named result holds before it is assigned. The
  buffer's own \<open>rowSize\<close> field is \<open>brow\<close> here, since \<open>position\<close> has a field of that
  name.
\<close>

record 'a Buffer =
  brow :: int
  startRow :: int
  buffers :: "'a list list"
  read :: position
  "write" :: position

text \<open>\<open>xs[i]\<close> as a read and as an assignment, with Go's bounds check.\<close>

definition index :: "'b list \<Rightarrow> int \<Rightarrow> panic + 'b" where
  "index xs i = (if 0 \<le> i \<and> i < int (length xs) then Inr (xs ! nat i) else Inl IndexOutOfRange)"

definition assign :: "'b list \<Rightarrow> int \<Rightarrow> 'b \<Rightarrow> panic + 'b list" where
  "assign xs i v =
     (if 0 \<le> i \<and> i < int (length xs) then Inr (xs[nat i := v]) else Inl IndexOutOfRange)"

definition buffered :: "'a Buffer \<Rightarrow> int" where
  "buffered b = AbsolutePos (write b) - AbsolutePos (read b)"

definition Buffered :: "'a Buffer \<Rightarrow> int" where
  "Buffered b = AbsolutePos (write b) - AbsolutePos (read b)"

definition bufferPos :: "'a Buffer \<Rightarrow> position \<Rightarrow> int \<times> int" where
  "bufferPos b pos = (Row pos - startRow b, Col pos)"

text \<open>The loop of \<open>Grow\<close>: \<open>for i := len(b.buffers); i <= rows; i++ { append a fresh row }\<close>.\<close>

function grow_loop :: "int \<Rightarrow> int \<Rightarrow> ('a::zero) Buffer \<Rightarrow> panic + 'a Buffer" where
  "grow_loop i rows b =
     (if i \<le> rows
      then (if brow b < 0 then Inl MakeSliceOutOfRange
            else grow_loop (i + 1) rows (b\<lparr>buffers := buffers b @ [replicate (nat (brow b)) 0]\<rparr>))
      else Inr b)"
  by pat_completeness auto
termination
  by (relation "measure (\<lambda>(i, rows, b). nat (rows + 1 - i))") auto

declare grow_loop.simps [simp del]

definition Grow :: "('a::zero) Buffer \<Rightarrow> int \<Rightarrow> panic + 'a Buffer" where
  "Grow b sz =
     (if brow b = 0 then Inl DivideByZero
      else let rows = sz sdiv brow b
           in grow_loop (int (length (buffers b))) rows b)"

definition Read :: "('a::zero) Buffer \<Rightarrow> panic + (('a \<times> bool) \<times> 'a Buffer)" where
  "Read b =
     (if buffered b \<le> 0 then Inr ((0, False), b)
      else let (row, col) = bufferPos b (read b)
           in case index (buffers b) row of
                Inl e \<Rightarrow> Inl e
              | Inr chunk \<Rightarrow>
                  (case index chunk col of
                     Inl e \<Rightarrow> Inl e
                   | Inr element \<Rightarrow>
                       (case Move (read b) 1 of
                          Inl e \<Rightarrow> Inl e
                        | Inr p \<Rightarrow> Inr ((element, True), b\<lparr>read := p\<rparr>))))"

definition Unread :: "'a Buffer \<Rightarrow> panic + 'a Buffer" where
  "Unread b = (case Move (read b) (- 1) of Inl e \<Rightarrow> Inl e | Inr p \<Rightarrow> Inr (b\<lparr>read := p\<rparr>))"

definition Next :: "('a::zero) Buffer \<Rightarrow> panic + (('a \<times> bool) \<times> 'a Buffer)" where
  "Next b =
     (if Buffered b \<le> 0 then Inr ((0, False), b)
      else let (row, col) = bufferPos b (read b)
           in case index (buffers b) row of
                Inl e \<Rightarrow> Inl e
              | Inr chunk \<Rightarrow>
                  (case index chunk col of
                     Inl e \<Rightarrow> Inl e
                   | Inr element \<Rightarrow> Inr ((element, True), b)))"

definition Consume :: "'a Buffer \<Rightarrow> panic + 'a Buffer" where
  "Consume b = (case Move (read b) 1 of Inl e \<Rightarrow> Inl e | Inr p \<Rightarrow> Inr (b\<lparr>read := p\<rparr>))"

definition Write :: "('a::zero) Buffer \<Rightarrow> 'a \<Rightarrow> panic + 'a Buffer" where
  "Write b element =
     (case Grow b (AbsolutePos (write b) + 1) of
        Inl e \<Rightarrow> Inl e
      | Inr b1 \<Rightarrow>
          (let (row, col) = bufferPos b1 (write b1)
           in case index (buffers b1) row of
                Inl e \<Rightarrow> Inl e
              | Inr chunk \<Rightarrow>
                  (case assign chunk col element of
                     Inl e \<Rightarrow> Inl e
                   | Inr chunk' \<Rightarrow>
                       (case Move (write b1) 1 of
                          Inl e \<Rightarrow> Inl e
                        | Inr p \<Rightarrow>
                            Inr (b1\<lparr>buffers := (buffers b1)[nat row := chunk'], write := p\<rparr>)))))"

definition State :: "'a Buffer \<Rightarrow> State" where
  "State b = newState (read b) (write b)"

text \<open>\<open>Rollback\<close> returns Go's \<open>error\<close> (\<open>None\<close> is \<open>nil\<close>) beside the buffer it leaves.\<close>

definition Rollback :: "'a Buffer \<Rightarrow> State \<Rightarrow> 'a Buffer \<times> error option" where
  "Rollback b state =
     (if zero state then (b, Some ZeroStateError)
      else if Row (sread state) < startRow b then (b, Some IllegalStateError)
      else (b\<lparr>read := sread state\<rparr>, None))"

text \<open>
  \<open>Commit\<close>: \<open>row\<close> comes from \<open>bufferPos\<close>, so it is already relative to \<open>startRow\<close>; the
  slice expression subtracts \<open>startRow\<close> once more. \<open>s[low:]\<close> panics unless
  \<open>0 \<le> low \<le> len(s)\<close>.
\<close>

definition Commit :: "'a Buffer \<Rightarrow> panic + 'a Buffer" where
  "Commit b =
     (let (row, _) = bufferPos b (read b);
          low = row - startRow b
      in if low < 0 \<or> int (length (buffers b)) < low then Inl SliceBoundsOutOfRange
         else Inr (b\<lparr>buffers := drop (nat low) (buffers b), startRow := startRow b + row\<rparr>))"

text \<open>
  \<open>NewWithSize\<close> of \<open>buffer.go\<close> returns the pair \<open>(buf, err)\<close>; \<open>make([][]T, 0, rows)\<close>
  panics on a negative capacity.
\<close>

definition NewWithSize :: "int \<Rightarrow> int \<Rightarrow> panic + (('a::zero) Buffer option \<times> error option)" where
  "NewWithSize rSize rows =
     (if rSize \<le> 0 then Inr (None, Some (RowSizeError rSize))
      else if rows < 0 then Inl MakeSliceOutOfRange
      else let buf = \<lparr>brow = rSize, startRow = 0, buffers = [],
                       read = \<lparr>rowSize = rSize, Row = 0, Col = 0\<rparr>,
                       write = \<lparr>rowSize = rSize, Row = 0, Col = 0\<rparr>\<rparr>
           in case Grow buf (rows * rSize) of
                Inl e \<Rightarrow> Inl e
              | Inr b \<Rightarrow> Inr (Some b, None))"

text \<open>The constructor of the lookahead revision panics instead, also on \<open>rows \<le> 0\<close>.\<close>

definition NewWithSizeP :: "int \<Rightarrow> int \<Rightarrow> panic + ('a::zero) Buffer" where
  "NewWithSizeP rSize rows =
     (if rSize \<le> 0 then Inl (PanicRowSize rSize)
      else if rows \<le> 0 then Inl (PanicRows rSize)
      else let buf = \<lparr>brow = rSize, startRow = 0, buffers = [],
                       read = \<lparr>rowSize = rSize, Row = 0, Col = 0\<rparr>,
                       write = \<lparr>rowSize = rSize, Row = 0, Col = 0\<rparr>\<rparr>
           in Grow buf (rows * rSize))"

subsection \<open>Driving a buffer\<close>

text \<open>
  The repository's table-driven tests run a list of operations against one buffer and
  one \<open>State\<close> variable (\<open>var state State\<close>, assigned by \<open>opState\<close>, passed to \<open>Rollback\<close>
  by \<open>opRollback\<close>). The driver below is that loop, with every public operation of
  both revisions as an operation. It records what the calls return in \<open>trace\<close>, and
  counts the writes and the read-advances (a \<open>Read\<close> that returned an element, or a
  \<open>Consume\<close>) performed so far; a panic ends the run.
\<close>

datatype 'a op =
    opWrite 'a
  | opRead
  | opUnread
  | opNext
  | opConsume
  | opState
  | opRollback
  | opCommit
  | opGrow int
  | opBuffered

datatype 'a obs =
    Elem 'a bool
  | Peek 'a bool
  | RollbackErr "error option"
  | Count int

record 'a driver =
  buf :: "'a Buffer"
  state :: State
  trace :: "'a obs list"
  nwrites :: nat
  nadvances :: nat

definition start :: "'a Buffer \<Rightarrow> 'a driver" where
  "start b = \<lparr>buf = b, state = zeroState, trace = [], nwrites = 0, nadvances = 0\<rparr>"

fun step :: "('a::zero) driver \<Rightarrow> 'a op \<Rightarrow> panic + 'a driver" where
  "step d (opWrite x) =
     (case Write (buf d) x of
        Inl e \<Rightarrow> Inl e
      | Inr b \<Rightarrow> Inr (d\<lparr>buf := b, nwrites := Suc (nwrites d)\<rparr>))"
| "step d opRead =
     (case Read (buf d) of
        Inl e \<Rightarrow> Inl e
      | Inr ((element, ok), b) \<Rightarrow>
          Inr (d\<lparr>buf := b, trace := trace d @ [Elem element ok],
                 nadvances := (if ok then Suc (nadvances d) else nadvances d)\<rparr>))"
| "step d opUnread =
     (case Unread (buf d) of Inl e \<Rightarrow> Inl e | Inr b \<Rightarrow> Inr (d\<lparr>buf := b\<rparr>))"
| "step d opNext =
     (case Next (buf d) of
        Inl e \<Rightarrow> Inl e
      | Inr ((element, ok), b) \<Rightarrow> Inr (d\<lparr>buf := b, trace := trace d @ [Peek element ok]\<rparr>))"
| "step d opConsume =
     (case Consume (buf d) of
        Inl e \<Rightarrow> Inl e
      | Inr b \<Rightarrow> Inr (d\<lparr>buf := b, nadvances := Suc (nadvances d)\<rparr>))"
| "step d opState = Inr (d\<lparr>state := State (buf d)\<rparr>)"
| "step d opRollback =
     (case Rollback (buf d) (state d) of
        (b, err) \<Rightarrow> Inr (d\<lparr>buf := b, trace := trace d @ [RollbackErr err]\<rparr>))"
| "step d opCommit =
     (case Commit (buf d) of Inl e \<Rightarrow> Inl e | Inr b \<Rightarrow> Inr (d\<lparr>buf := b\<rparr>))"
| "step d (opGrow n) =
     (case Grow (buf d) n of Inl e \<Rightarrow> Inl e | Inr b \<Rightarrow> Inr (d\<lparr>buf := b\<rparr>))"
| "step d opBuffered = Inr (d\<lparr>trace := trace d @ [Count (Buffered (buf d))]\<rparr>)"

fun run :: "('a::zero) driver \<Rightarrow> 'a op list \<Rightarrow> panic + 'a driver" where
  "run d [] = Inr d"
| "run d (x # xs) = (case step d x of Inl e \<Rightarrow> Inl e | Inr d' \<Rightarrow> run d' xs)"

text \<open>
  A run on a fresh buffer from either constructor. The tests of \<open>buffer.go\<close> go on with
  the buffer they were given even when \<open>err\<close> is not nil; the buffer is nil then.
\<close>

definition runNew :: "int \<Rightarrow> int \<Rightarrow> ('a::zero) op list \<Rightarrow> panic + 'a driver" where
  "runNew rSize rows ops =
     (case NewWithSize rSize rows of
        Inl e \<Rightarrow> Inl e
      | Inr (None, err) \<Rightarrow> Inl NilDereference
      | Inr (Some b, err) \<Rightarrow> run (start b) ops)"


text \<open>What a run returned, for closed statements: the trace, or the panic.\<close>

definition observed :: "panic + 'a driver \<Rightarrow> panic + 'a obs list" where
  "observed r = (case r of Inl e \<Rightarrow> Inl e | Inr d \<Rightarrow> Inr (trace d))"

subsection \<open>Vocabulary of the properties\<close>

text \<open>The elements an operation list writes, in order, and the number of its reads.\<close>

fun written :: "'a op list \<Rightarrow> 'a list" where
  "written [] = []"
| "written (opWrite x # xs) = x # written xs"
| "written (_ # xs) = written xs"

fun nreads :: "'a op list \<Rightarrow> nat" where
  "nreads [] = 0"
| "nreads (opRead # xs) = Suc (nreads xs)"
| "nreads (_ # xs) = nreads xs"

text \<open>
  An interleaving of writes and consuming reads in which every read happens while at
  least one element is unread; \<open>n\<close> is the number of elements unread at the start.
\<close>

fun fifo_guarded :: "nat \<Rightarrow> 'a op list \<Rightarrow> bool" where
  "fifo_guarded n [] = True"
| "fifo_guarded n (opWrite x # xs) = fifo_guarded (Suc n) xs"
| "fifo_guarded n (opRead # xs) = (0 < n \<and> fifo_guarded (n - 1) xs)"
| "fifo_guarded n (_ # xs) = False"

fun reads_and_writes :: "'a op list \<Rightarrow> bool" where
  "reads_and_writes [] = True"
| "reads_and_writes (opWrite x # xs) = reads_and_writes xs"
| "reads_and_writes (opRead # xs) = reads_and_writes xs"
| "reads_and_writes (_ # xs) = False"

text \<open>
  A position of a buffer with row size \<open>r\<close>: it carries \<open>r\<close>, and its row and column are
  those of a non-negative absolute index.
\<close>

definition wfpos :: "int \<Rightarrow> position \<Rightarrow> bool" where
  "wfpos r p = (rowSize p = r \<and> 0 \<le> Row p \<and> 0 \<le> Col p \<and> Col p < r)"

text \<open>The storage slot that \<open>bufferPos\<close> assigns to the absolute index \<open>i\<close>.\<close>

definition slot :: "'a Buffer \<Rightarrow> int \<Rightarrow> 'a" where
  "slot b i = buffers b ! nat (i div brow b - startRow b) ! nat (i mod brow b)"

text \<open>
  The invariants of the data model, relative to the stream \<open>ws\<close> of all elements written
  so far: positions well formed, rows of the row size, the write position at the end of
  the stream and inside allocated storage, the read position not behind the first
  retained row and not ahead of the write position, and every written element from the
  first retained row on in its slot.
\<close>

definition represents :: "'a Buffer \<Rightarrow> 'a list \<Rightarrow> bool" where
  "represents b ws =
     (0 < brow b \<and> 0 \<le> startRow b
      \<and> wfpos (brow b) (read b) \<and> wfpos (brow b) (write b)
      \<and> list_all (\<lambda>c. int (length c) = brow b) (buffers b)
      \<and> AbsolutePos (write b) = int (length ws)
      \<and> Row (write b) - startRow b < int (length (buffers b))
      \<and> startRow b \<le> Row (read b)
      \<and> AbsolutePos (read b) \<le> AbsolutePos (write b)
      \<and> list_all (\<lambda>i. slot b i = ws ! nat i) [startRow b * brow b .. int (length ws) - 1])"


text \<open>
  The documented range of use: \<open>Unread\<close> does not step back behind the first retained
  row ("after a commit you may only unread elements that has been written after the
  last commit (technically ... to the beginning of the first row after the commit)"),
  and \<open>Commit\<close> is called with the read position not ahead of the write position and
  while no earlier commit has moved \<open>startRow\<close>.
\<close>

definition allowed :: "'a Buffer \<Rightarrow> 'a op \<Rightarrow> bool" where
  "allowed b x =
     (case x of
        opUnread \<Rightarrow> startRow b = 0 \<or> startRow b * brow b < AbsolutePos (read b)
      | opCommit \<Rightarrow> startRow b = 0 \<and> 0 \<le> Buffered b
      | _ \<Rightarrow> True)"

fun disciplined :: "('a::zero) driver \<Rightarrow> 'a op list \<Rightarrow> bool" where
  "disciplined d [] = True"
| "disciplined d (x # xs) =
     (allowed (buf d) x
      \<and> (case step d x of Inl e \<Rightarrow> True | Inr d' \<Rightarrow> disciplined d' xs))"


definition safe :: "'a driver \<Rightarrow> bool" where
  "safe d =
     (0 < brow (buf d) \<and> 0 \<le> startRow (buf d)
      \<and> wfpos (brow (buf d)) (read (buf d)) \<and> wfpos (brow (buf d)) (write (buf d))
      \<and> list_all (\<lambda>c. int (length c) = brow (buf d)) (buffers (buf d))
      \<and> startRow (buf d) \<le> Row (write (buf d))
      \<and> Row (write (buf d)) - startRow (buf d) < int (length (buffers (buf d)))
      \<and> startRow (buf d) \<le> Row (read (buf d))
      \<and> (init (state d) \<longrightarrow> wfpos (brow (buf d)) (sread (state d))))"

section \<open>Position arithmetic\<close>

lemma sdiv_nonneg: "0 \<le> a \<Longrightarrow> 0 < r \<Longrightarrow> (a::int) sdiv r = a div r"
  by (simp add: signed_divide_int_def sgn_if)

lemma smod_nonneg: "0 \<le> a \<Longrightarrow> 0 < r \<Longrightarrow> (a::int) smod r = a mod r"
  by (simp add: signed_modulo_int_def sgn_if)

lemma Move_pos:
  assumes "0 < rowSize p"
  shows "Move p s = Inr (p\<lparr>Row := max 0 (AbsolutePos p + s) div rowSize p,
                           Col := max 0 (AbsolutePos p + s) mod rowSize p\<rparr>)"
  using assms by (simp add: Move_def Let_def sdiv_nonneg smod_nonneg max_def)



section \<open>Growth\<close>

lemma grow_loop_eq:
  "0 \<le> brow b \<Longrightarrow>
   grow_loop i rows b =
     Inr (b\<lparr>buffers := buffers b @ replicate (nat (rows + 1 - i)) (replicate (nat (brow b)) 0)\<rparr>)"
proof (induction i rows b rule: grow_loop.induct)
  case (1 i rows b)
  show ?case
  proof (cases "i \<le> rows")
    case True
    then have n: "nat (rows + 1 - i) = Suc (nat (rows + 1 - (i + 1)))"
      by simp
    from True "1.prems" have
      "grow_loop i rows b =
         grow_loop (i + 1) rows (b\<lparr>buffers := buffers b @ [replicate (nat (brow b)) 0]\<rparr>)"
      by (subst grow_loop.simps) simp
    also have "\<dots> = Inr (b\<lparr>buffers := buffers b @ [replicate (nat (brow b)) 0]
                 @ replicate (nat (rows + 1 - (i + 1))) (replicate (nat (brow b)) 0)\<rparr>)"
      using True "1.prems" by (subst "1.IH") simp_all
    finally show ?thesis
      by (simp only: n replicate_Suc append_Cons append_Nil)
  next
    case False
    then show ?thesis
      by (subst grow_loop.simps) simp
  qed
qed

lemma Grow_eq:
  "0 < brow b \<Longrightarrow>
   Grow b sz =
     Inr (b\<lparr>buffers := buffers b
            @ replicate (nat (sz sdiv brow b + 1 - int (length (buffers b))))
                (replicate (nat (brow b)) 0)\<rparr>)"
  by (simp add: Grow_def grow_loop_eq)

section \<open>Construction\<close>

text \<open>
  C10. The error-returning constructor does not reject a row count of zero: for every
  positive row size, \<open>NewWithSize rSize 0\<close> returns a buffer and a nil error; \<open>Grow\<close>
  allocates rows up to index \<open>0 / rSize = 0\<close> inclusive, so the buffer holds exactly one
  row (of \<open>rSize\<close> zero values), and the read and the write position are at absolute
  index 0.
\<close>

theorem NewWithSize_zero_rows:
  assumes "0 < rSize"
  shows "\<exists>b. NewWithSize rSize 0 = Inr (Some b, None)
           \<and> buffers b = [replicate (nat rSize) (0::'a::zero)]
           \<and> length (buffers b) = 1
           \<and> AbsolutePos (read b) = 0 \<and> AbsolutePos (write b) = 0
           \<and> startRow b = 0 \<and> brow b = rSize"
  using assms by (simp add: NewWithSize_def Grow_eq AbsolutePos_def)

theorem NewWithSize_zero_rows_witness:
  "\<exists>b. NewWithSize 5 0 = Inr (Some b, None)
       \<and> buffers b = [[0, 0, 0, 0, 0 :: int]]
       \<and> AbsolutePos (read b) = 0 \<and> AbsolutePos (write b) = 0"
  using NewWithSize_zero_rows [of 5, where ?'a = int]
  by (auto simp: numeral_eq_Suc)

section \<open>Rollback\<close>

text \<open>
  C6. \<open>Rollback\<close> returns \<open>ZeroStateError\<close> exactly when the checkpoint is the zero
  value (never produced by \<open>State\<close>), \<open>IllegalStateError\<close> exactly when the checkpoint
  is a real one whose read row is below \<open>startRow\<close>, and succeeds otherwise, setting the
  read position to the checkpoint's; whenever it returns an error the buffer is the one
  it was given. A checkpoint from \<open>State\<close> is never the zero value, and \<open>State{}\<close> is.
\<close>

theorem Rollback_outcomes:
  "(snd (Rollback b s) = Some ZeroStateError) = zero s
   \<and> (snd (Rollback b s) = Some IllegalStateError) = (\<not> zero s \<and> Row (sread s) < startRow b)
   \<and> (snd (Rollback b s) = None) = (\<not> zero s \<and> \<not> Row (sread s) < startRow b)
   \<and> (snd (Rollback b s) \<noteq> None \<longrightarrow> fst (Rollback b s) = b)
   \<and> (snd (Rollback b s) = None \<longrightarrow> fst (Rollback b s) = b\<lparr>read := sread s\<rparr>)
   \<and> zero zeroState \<and> \<not> zero (State b)"
  by (simp add: Rollback_def zero_def zeroState_def State_def newState_def)

theorem Rollback_outcomes_witness:
  "snd (Rollback \<lparr>brow = 2, startRow = 1, buffers = [[3, 0::int]],
                  read = \<lparr>rowSize = 2, Row = 1, Col = 0\<rparr>,
                  write = \<lparr>rowSize = 2, Row = 1, Col = 1\<rparr>\<rparr>
          (newState \<lparr>rowSize = 2, Row = 0, Col = 1\<rparr> \<lparr>rowSize = 2, Row = 1, Col = 1\<rparr>))
     = Some IllegalStateError
   \<and> fst (Rollback \<lparr>brow = 2, startRow = 1, buffers = [[3, 0::int]],
                  read = \<lparr>rowSize = 2, Row = 1, Col = 0\<rparr>,
                  write = \<lparr>rowSize = 2, Row = 1, Col = 1\<rparr>\<rparr>
          (newState \<lparr>rowSize = 2, Row = 0, Col = 1\<rparr> \<lparr>rowSize = 2, Row = 1, Col = 1\<rparr>))
     = \<lparr>brow = 2, startRow = 1, buffers = [[3, 0::int]],
                  read = \<lparr>rowSize = 2, Row = 1, Col = 0\<rparr>,
                  write = \<lparr>rowSize = 2, Row = 1, Col = 1\<rparr>\<rparr>
   \<and> snd (Rollback \<lparr>brow = 2, startRow = 1, buffers = [[3, 0::int]],
                  read = \<lparr>rowSize = 2, Row = 1, Col = 0\<rparr>,
                  write = \<lparr>rowSize = 2, Row = 1, Col = 1\<rparr>\<rparr>
          (newState \<lparr>rowSize = 2, Row = 1, Col = 1\<rparr> \<lparr>rowSize = 2, Row = 1, Col = 1\<rparr>))
     = None
   \<and> read (fst (Rollback \<lparr>brow = 2, startRow = 1, buffers = [[3, 0::int]],
                  read = \<lparr>rowSize = 2, Row = 1, Col = 0\<rparr>,
                  write = \<lparr>rowSize = 2, Row = 1, Col = 1\<rparr>\<rparr>
          (newState \<lparr>rowSize = 2, Row = 1, Col = 1\<rparr> \<lparr>rowSize = 2, Row = 1, Col = 1\<rparr>)))
     = \<lparr>rowSize = 2, Row = 1, Col = 1\<rparr>"
  using
    Rollback_outcomes [of "\<lparr>brow = 2, startRow = 1, buffers = [[3, 0::int]],
                  read = \<lparr>rowSize = 2, Row = 1, Col = 0\<rparr>,
                  write = \<lparr>rowSize = 2, Row = 1, Col = 1\<rparr>\<rparr>"
      "newState \<lparr>rowSize = 2, Row = 0, Col = 1\<rparr> \<lparr>rowSize = 2, Row = 1, Col = 1\<rparr>"]
    Rollback_outcomes [of "\<lparr>brow = 2, startRow = 1, buffers = [[3, 0::int]],
                  read = \<lparr>rowSize = 2, Row = 1, Col = 0\<rparr>,
                  write = \<lparr>rowSize = 2, Row = 1, Col = 1\<rparr>\<rparr>"
      "newState \<lparr>rowSize = 2, Row = 1, Col = 1\<rparr> \<lparr>rowSize = 2, Row = 1, Col = 1\<rparr>"]
  by (auto simp: zero_def newState_def)

section \<open>The two read surfaces\<close>

text \<open>
  C8. \<open>Read\<close> is \<open>Next\<close> followed, when an element is present, by \<open>Consume\<close>: it returns
  what \<open>Next\<close> returns (or panics where \<open>Next\<close> or \<open>Consume\<close> would), and leaves the
  buffer as \<open>Consume\<close> after \<open>Next\<close> leaves it; with no element present it leaves the
  buffer as it was. \<open>Next\<close> returns the buffer it was given, so calling it again returns
  the same element and flag.
\<close>

theorem Read_is_Next_then_Consume:
  "Read b =
     (case Next b of
        Inl e \<Rightarrow> Inl e
      | Inr (r, b1) \<Rightarrow>
          if snd r then (case Consume b1 of Inl e \<Rightarrow> Inl e | Inr b2 \<Rightarrow> Inr (r, b2))
          else Inr (r, b))
   \<and> (\<forall>r b1. Next b = Inr (r, b1) \<longrightarrow> b1 = b \<and> Next b1 = Inr (r, b1))
   \<and> (\<forall>e b1. Read b = Inr ((e, False), b1) \<longrightarrow> b1 = b)"
  by (auto simp: Read_def Next_def Consume_def buffered_def Buffered_def
           split: sum.splits prod.splits if_splits)

theorem Read_is_Next_then_Consume_witness:
  "Read \<lparr>brow = 2, startRow = 0, buffers = [[1, 2], [3, 0::int]],
          read = \<lparr>rowSize = 2, Row = 0, Col = 1\<rparr>,
          write = \<lparr>rowSize = 2, Row = 1, Col = 1\<rparr>\<rparr>
     = Inr ((2, True),
            \<lparr>brow = 2, startRow = 0, buffers = [[1, 2], [3, 0::int]],
              read = \<lparr>rowSize = 2, Row = 1, Col = 0\<rparr>,
              write = \<lparr>rowSize = 2, Row = 1, Col = 1\<rparr>\<rparr>)
   \<and> Read \<lparr>brow = 2, startRow = 0, buffers = [[1, 2], [3, 0::int]],
          read = \<lparr>rowSize = 2, Row = 1, Col = 1\<rparr>,
          write = \<lparr>rowSize = 2, Row = 1, Col = 1\<rparr>\<rparr>
     = Inr ((0, False),
            \<lparr>brow = 2, startRow = 0, buffers = [[1, 2], [3, 0::int]],
              read = \<lparr>rowSize = 2, Row = 1, Col = 1\<rparr>,
              write = \<lparr>rowSize = 2, Row = 1, Col = 1\<rparr>\<rparr>)"
proof -
  let ?b = "\<lparr>brow = 2, startRow = 0, buffers = [[1, 2], [3, 0::int]],
             read = \<lparr>rowSize = 2, Row = 0, Col = 1\<rparr>,
             write = \<lparr>rowSize = 2, Row = 1, Col = 1\<rparr>\<rparr>"
  let ?e = "\<lparr>brow = 2, startRow = 0, buffers = [[1, 2], [3, 0::int]],
             read = \<lparr>rowSize = 2, Row = 1, Col = 1\<rparr>,
             write = \<lparr>rowSize = 2, Row = 1, Col = 1\<rparr>\<rparr>"
  have n: "Next ?b = Inr ((2, True), ?b)"
    by (simp add: Next_def Buffered_def AbsolutePos_def bufferPos_def index_def)
  have c: "Consume ?b = Inr (?b\<lparr>read := \<lparr>rowSize = 2, Row = 1, Col = 0\<rparr>\<rparr>)"
    by (simp add: Consume_def Move_pos AbsolutePos_def)
  have e: "Next ?e = Inr ((0, False), ?e)"
    by (simp add: Next_def Buffered_def AbsolutePos_def)
  from Read_is_Next_then_Consume [of ?b] Read_is_Next_then_Consume [of ?e] n c e
  show ?thesis by simp
qed

text \<open>
  C9. When \<open>Next\<close> or \<open>Read\<close> reports that there is no element, the element returned
  beside the flag is the zero value of the element type; and both report so, without a
  panic, in every buffer with nothing unread.
\<close>

theorem no_element_is_zero_value:
  "(\<forall>e b1. Next b = Inr ((e, False), b1) \<longrightarrow> e = 0)
   \<and> (\<forall>e b1. Read b = Inr ((e, False), b1) \<longrightarrow> e = 0)
   \<and> (Buffered b \<le> 0 \<longrightarrow> Next b = Inr ((0, False), b) \<and> Read b = Inr ((0, False), b))"
  by (auto simp: Read_def Next_def buffered_def Buffered_def
           split: sum.splits prod.splits if_splits)

theorem no_element_is_zero_value_witness:
  "Next \<lparr>brow = 2, startRow = 0, buffers = [[1, 2], [3, 0::int]],
          read = \<lparr>rowSize = 2, Row = 1, Col = 1\<rparr>,
          write = \<lparr>rowSize = 2, Row = 1, Col = 1\<rparr>\<rparr>
     = Inr ((0, False),
            \<lparr>brow = 2, startRow = 0, buffers = [[1, 2], [3, 0::int]],
              read = \<lparr>rowSize = 2, Row = 1, Col = 1\<rparr>,
              write = \<lparr>rowSize = 2, Row = 1, Col = 1\<rparr>\<rparr>)
   \<and> Read \<lparr>brow = 2, startRow = 0, buffers = [[1, 2], [3, 0::int]],
          read = \<lparr>rowSize = 2, Row = 1, Col = 1\<rparr>,
          write = \<lparr>rowSize = 2, Row = 1, Col = 1\<rparr>\<rparr>
     = Inr ((0, False),
            \<lparr>brow = 2, startRow = 0, buffers = [[1, 2], [3, 0::int]],
              read = \<lparr>rowSize = 2, Row = 1, Col = 1\<rparr>,
              write = \<lparr>rowSize = 2, Row = 1, Col = 1\<rparr>\<rparr>)"
  using no_element_is_zero_value
    [of "\<lparr>brow = 2, startRow = 0, buffers = [[1, 2], [3, 0::int]],
          read = \<lparr>rowSize = 2, Row = 1, Col = 1\<rparr>,
          write = \<lparr>rowSize = 2, Row = 1, Col = 1\<rparr>\<rparr>"]
  by (simp add: Buffered_def AbsolutePos_def)

section \<open>The storage invariant\<close>

lemma wfpos_div: "0 < r \<Longrightarrow> wfpos r p \<Longrightarrow> AbsolutePos p div r = Row p"
  by (simp add: wfpos_def AbsolutePos_def)

lemma wfpos_mod: "0 < r \<Longrightarrow> wfpos r p \<Longrightarrow> AbsolutePos p mod r = Col p"
  by (simp add: wfpos_def AbsolutePos_def)

lemma wfpos_abs_nonneg: "0 < r \<Longrightarrow> wfpos r p \<Longrightarrow> 0 \<le> AbsolutePos p"
  by (simp add: wfpos_def AbsolutePos_def)

lemma Move_wf:
  assumes "0 < r" "rowSize p = r"
  shows "\<exists>q. Move p s = Inr q \<and> wfpos r q \<and> AbsolutePos q = max 0 (AbsolutePos p + s)"
  using assms by (simp add: Move_pos wfpos_def AbsolutePos_def pos_imp_zdiv_nonneg_iff)

lemma represents_iff:
  "represents b ws \<longleftrightarrow>
     0 < brow b \<and> 0 \<le> startRow b
     \<and> wfpos (brow b) (read b) \<and> wfpos (brow b) (write b)
     \<and> (\<forall>c \<in> set (buffers b). int (length c) = brow b)
     \<and> AbsolutePos (write b) = int (length ws)
     \<and> Row (write b) - startRow b < int (length (buffers b))
     \<and> startRow b \<le> Row (read b)
     \<and> AbsolutePos (read b) \<le> AbsolutePos (write b)
     \<and> (\<forall>i. startRow b * brow b \<le> i \<and> i < int (length ws) \<longrightarrow> slot b i = ws ! nat i)"
  by (auto simp: represents_def list_all_iff)

lemma row_of_index:
  fixes r :: int
  assumes "0 < r" "s * r \<le> i"
  shows "s \<le> i div r"
proof -
  have "(s * r) div r \<le> i div r" using assms by (intro zdiv_mono1) simp_all
  with assms show ?thesis by simp
qed

lemma Write_represents:
  fixes b :: "('a::zero) Buffer"
  assumes "represents b ws"
  shows "\<exists>b'. Write b x = Inr b' \<and> represents b' (ws @ [x]) \<and> read b' = read b
            \<and> startRow b' = startRow b \<and> brow b' = brow b"
proof -
  define r where "r = brow b"
  define w where "w = AbsolutePos (write b)"
  define s where "s = startRow b"
  from assms have r: "0 < r" and s0: "0 \<le> s"
    and wfr: "wfpos r (read b)" and wfw: "wfpos r (write b)"
    and rows: "\<forall>c \<in> set (buffers b). int (length c) = r"
    and wlen: "w = int (length ws)"
    and alloc: "Row (write b) - s < int (length (buffers b))"
    and base: "s \<le> Row (read b)"
    and rw: "AbsolutePos (read b) \<le> w"
    and slots: "\<forall>i. s * r \<le> i \<and> i < int (length ws) \<longrightarrow> slot b i = ws ! nat i"
    by (simp_all add: represents_iff r_def w_def s_def)
  have wrow: "w div r = Row (write b)" and wcol: "w mod r = Col (write b)"
    using r wfw by (simp_all add: w_def wfpos_div wfpos_mod)
  have w0: "0 \<le> w" using wlen by simp
  have rdrow: "Row (read b) \<le> Row (write b)"
    using zdiv_mono1 [OF rw r] wfpos_div [OF r wfr] wrow by (simp add: w_def)
  define extra where "extra = nat ((w + 1) sdiv r + 1 - int (length (buffers b)))"
  define grown where "grown = buffers b @ replicate extra (replicate (nat r) (0::'a))"
  have G: "Grow b (w + 1) = Inr (b\<lparr>buffers := grown\<rparr>)"
    using r by (simp add: Grow_eq r_def grown_def extra_def)
  define row where "row = nat (Row (write b) - s)"
  have row_ge: "0 \<le> Row (write b) - s" using base rdrow by simp
  have row_lt: "row < length (buffers b)" using alloc row_ge by (simp add: row_def)
  have row_lt': "row < length grown" using row_lt by (simp add: grown_def)
  define chunk where "chunk = buffers b ! row"
  have chunk: "grown ! row = chunk" using row_lt by (simp add: grown_def chunk_def nth_append)
  have clen: "int (length chunk) = r" using rows row_lt by (simp add: chunk_def)
  have col: "0 \<le> Col (write b)" "Col (write b) < r" using wfw by (simp_all add: wfpos_def)
  obtain p where p: "Move (write b) 1 = Inr p" "wfpos r p" "AbsolutePos p = w + 1"
    using Move_wf [of r "write b" 1] r wfw w0 by (auto simp: wfpos_def w_def)
  define b' where
    "b' = b\<lparr>buffers := grown[row := chunk[nat (Col (write b)) := x]], write := p\<rparr>"
  have W: "Write b x = Inr b'"
    using row_ge [unfolded s_def] row_lt' [unfolded row_def s_def] col clen
    by (simp add: Write_def G [unfolded w_def] bufferPos_def index_def assign_def
        chunk [unfolded row_def s_def] p b'_def s_def row_def)
  have glen: "(w + 1) div r - s < int (length grown)"
  proof -
    have "(w + 1) div r < int (length grown)"
      using r w0 by (simp add: grown_def extra_def sdiv_nonneg)
    with s0 show ?thesis by simp
  qed
  have rows': "\<forall>c \<in> set (buffers b'). int (length c) = r"
  proof
    fix c assume "c \<in> set (buffers b')"
    then have "c \<in> insert (chunk[nat (Col (write b)) := x]) (set grown)"
      using set_update_subset_insert [of grown row] by (auto simp: b'_def)
    then show "int (length c) = r"
      using rows clen r by (auto simp: grown_def)
  qed
  have slots': "slot b' i = (ws @ [x]) ! nat i" if i: "s * r \<le> i" "i < int (length (ws @ [x]))" for i
  proof (cases "i = w")
    case True
    have "slot b' w = x"
      using row_lt' col clen
      by (simp add: slot_def b'_def wrow wcol r_def [symmetric] s_def [symmetric]
          row_def [symmetric])
    moreover have "(ws @ [x]) ! nat w = x" using wlen by simp
    ultimately show ?thesis using True by simp
  next
    case False
    with i wlen have lt: "i < w" by simp
    have i0: "0 \<le> i" using i s0 r by (meson mult_nonneg_nonneg order_less_imp_le order_trans)
    have lo: "s \<le> i div r" using row_of_index [OF r i(1)] .
    have hi: "i div r \<le> Row (write b)" using zdiv_mono1 [of i w r] lt r wrow by simp
    define k where "k = nat (i div r - s)"
    have k_le: "k \<le> row" using lo hi by (simp add: k_def row_def)
    have old: "slot b i = ws ! nat i" using slots i(1) lt wlen by simp
    have "slot b' i = slot b i"
    proof (cases "k = row")
      case True
      then have "i div r = Row (write b)" using lo hi row_ge by (simp add: k_def row_def)
      then have "i mod r \<noteq> Col (write b)"
        using lt wrow wcol by (metis div_mult_mod_eq less_irrefl)
      moreover have "0 \<le> i mod r" using r by simp
      ultimately have "nat (i mod r) \<noteq> nat (Col (write b))"
        using col r by (simp add: eq_nat_nat_iff)
      then show ?thesis
        using True row_lt' row_lt
        by (simp add: slot_def b'_def r_def [symmetric] s_def [symmetric] k_def [symmetric]
            chunk_def)
    next
      case False
      then have "k < length (buffers b)" using k_le row_lt by simp
      then show ?thesis
        using False
        by (simp add: slot_def b'_def r_def [symmetric] s_def [symmetric] k_def [symmetric]
            grown_def nth_append)
    qed
    moreover have "nat i < length ws" using lt wlen i0 by simp
    ultimately show ?thesis using old by (simp add: nth_append)
  qed
  have prow: "Row p - s < int (length grown)"
    using wfpos_div [OF r p(2)] p(3) glen by simp
  have "represents b' (ws @ [x])"
    unfolding represents_iff
    using r s0 wfr p prow base rw rows' slots' wlen
    by (simp add: b'_def r_def [symmetric] s_def [symmetric] w_def [symmetric])
  with W show ?thesis by (auto simp: b'_def)
qed


lemma Read_empty: "buffered b \<le> 0 \<Longrightarrow> Read b = Inr ((0, False), b)"
  by (simp add: Read_def)

lemma Read_represents:
  fixes b :: "('a::zero) Buffer"
  assumes "represents b ws" "0 < buffered b"
  shows "\<exists>q. Read b = Inr ((ws ! nat (AbsolutePos (read b)), True), b\<lparr>read := q\<rparr>)
            \<and> represents (b\<lparr>read := q\<rparr>) ws
            \<and> AbsolutePos q = AbsolutePos (read b) + 1"
proof -
  define r where "r = brow b"
  define a where "a = AbsolutePos (read b)"
  define s where "s = startRow b"
  from assms(1) have r: "0 < r" and s0: "0 \<le> s"
    and wfr: "wfpos r (read b)" and wfw: "wfpos r (write b)"
    and rows: "\<forall>c \<in> set (buffers b). int (length c) = r"
    and wlen: "AbsolutePos (write b) = int (length ws)"
    and alloc: "Row (write b) - s < int (length (buffers b))"
    and base: "s \<le> Row (read b)"
    and slots: "\<forall>i. s * r \<le> i \<and> i < int (length ws) \<longrightarrow> slot b i = ws ! nat i"
    by (simp_all add: represents_iff r_def s_def)
  have lt: "a < int (length ws)" using assms(2) wlen by (simp add: buffered_def a_def)
  have arow: "a div r = Row (read b)" and acol: "a mod r = Col (read b)"
    using r wfr by (simp_all add: a_def wfpos_div wfpos_mod)
  have a0: "0 \<le> a" using wfpos_abs_nonneg [OF r wfr] by (simp add: a_def)
  have rdrow: "Row (read b) \<le> Row (write b)"
    using zdiv_mono1 [of a "AbsolutePos (write b)" r] lt wlen r arow wfpos_div [OF r wfw]
    by simp
  define row where "row = nat (Row (read b) - s)"
  have row_lt: "row < length (buffers b)" using alloc rdrow base by (simp add: row_def)
  have clen: "int (length (buffers b ! row)) = r" using rows row_lt by simp
  have col: "0 \<le> Col (read b)" "Col (read b) < r" using wfr by (simp_all add: wfpos_def)
  have "s * r \<le> Row (read b) * r" using base r by (simp add: mult_right_mono)
  also have "\<dots> \<le> a" using col by (simp add: a_def AbsolutePos_def wfr [unfolded wfpos_def])
  finally have lo: "s * r \<le> a" .
  have elem: "buffers b ! row ! nat (Col (read b)) = ws ! nat a"
    using slots [rule_format, of a] lo lt
    by (simp add: slot_def arow acol r_def [symmetric] s_def [symmetric] row_def)
  obtain q where q: "Move (read b) 1 = Inr q" "wfpos r q" "AbsolutePos q = a + 1"
    using Move_wf [of r "read b" 1] r wfr a0 by (auto simp: wfpos_def a_def)
  have R: "Read b = Inr ((ws ! nat a, True), b\<lparr>read := q\<rparr>)"
    using assms(2) base row_lt [unfolded row_def s_def] col clen [unfolded row_def s_def]
      elem [unfolded row_def s_def]
    by (simp add: Read_def bufferPos_def index_def q s_def)
  have "a div r \<le> (a + 1) div r" using r by (intro zdiv_mono1) simp_all
  then have qrow: "s \<le> Row q" using wfpos_div [OF r q(2)] q(3) arow base by simp
  have "represents (b\<lparr>read := q\<rparr>) ws"
    using assms(1) q qrow lt unfolding represents_iff
    by (simp add: slot_def r_def [symmetric] s_def [symmetric])
  with R q show ?thesis by (auto simp: a_def)
qed

lemma NewWithSize_represents:
  assumes "0 < rSize" "0 \<le> rows"
  shows "\<exists>b. NewWithSize rSize rows = Inr (Some b, None) \<and> represents b []
           \<and> startRow b = 0 \<and> brow b = rSize \<and> AbsolutePos (read b) = 0"
proof -
  have "rows * rSize sdiv rSize = rows"
    using assms by (simp add: sdiv_nonneg)
  with assms show ?thesis
    by (auto simp: NewWithSize_def Grow_eq represents_iff wfpos_def AbsolutePos_def)
qed

lemma run_append:
  "run d (xs @ ys) = (case run d xs of Inl e \<Rightarrow> Inl e | Inr d' \<Rightarrow> run d' ys)"
  by (induction xs arbitrary: d) (auto split: sum.splits)

lemma represents_buffered:
  "represents b ws \<Longrightarrow> buffered b = int (length ws) - AbsolutePos (read b)"
  by (simp add: represents_iff buffered_def)

lemma represents_read_nonneg: "represents b ws \<Longrightarrow> 0 \<le> AbsolutePos (read b)"
  using wfpos_abs_nonneg by (auto simp: represents_iff)

lemma represents_read_le: "represents b ws \<Longrightarrow> AbsolutePos (read b) \<le> int (length ws)"
  by (simp add: represents_iff)

lemma fifo_run:
  fixes d :: "('a::zero) driver"
  assumes "represents (buf d) ws" "fifo_guarded n ops" "n = nat (buffered (buf d))"
  shows "\<exists>d'. run d ops = Inr d'
           \<and> represents (buf d') (ws @ written ops)
           \<and> trace d' = trace d @ map (\<lambda>x. Elem x True)
                 (take (nreads ops) (drop (nat (AbsolutePos (read (buf d)))) (ws @ written ops)))
           \<and> AbsolutePos (read (buf d')) = AbsolutePos (read (buf d)) + int (nreads ops)
           \<and> state d' = state d
           \<and> startRow (buf d') = startRow (buf d)"
  using assms
proof (induction n ops arbitrary: d ws rule: fifo_guarded.induct)
  case (1 n)
  then show ?case by simp
next
  case (2 n x xs)
  obtain b' where b': "Write (buf d) x = Inr b'" "represents b' (ws @ [x])"
      "read b' = read (buf d)" "startRow b' = startRow (buf d)"
    using Write_represents [OF "2.prems"(1)] by blast
  define d1 where "d1 = d\<lparr>buf := b', nwrites := Suc (nwrites d)\<rparr>"
  have st: "step d (opWrite x) = Inr d1" by (simp add: b' d1_def)
  have n: "Suc n = nat (buffered (buf d1))"
    using "2.prems" b' represents_buffered [OF b'(2)] represents_buffered [OF "2.prems"(1)]
      represents_read_le [OF "2.prems"(1)]
    by (simp add: d1_def)
  have g: "fifo_guarded (Suc n) xs" using "2.prems" by simp
  from "2.IH" [of d1 "ws @ [x]", OF _ g n] b'
  show ?case by (auto simp: st d1_def)
next
  case (3 n xs)
  define a where "a = AbsolutePos (read (buf d))"
  have pos: "0 < buffered (buf d)" using "3.prems" by simp
  have a0: "0 \<le> a" using represents_read_nonneg [OF "3.prems"(1)] by (simp add: a_def)
  have a_lt: "nat a < length ws"
    using pos a0 represents_buffered [OF "3.prems"(1)] by (simp add: a_def)
  obtain q where q: "Read (buf d) = Inr ((ws ! nat a, True), (buf d)\<lparr>read := q\<rparr>)"
      "represents ((buf d)\<lparr>read := q\<rparr>) ws" "AbsolutePos q = a + 1"
    using Read_represents [OF "3.prems"(1) pos] by (auto simp: a_def)
  define d1 where "d1 = d\<lparr>buf := (buf d)\<lparr>read := q\<rparr>, trace := trace d @ [Elem (ws ! nat a) True],
                            nadvances := Suc (nadvances d)\<rparr>"
  have st: "step d opRead = Inr d1" by (simp add: q d1_def)
  have n: "n - 1 = nat (buffered (buf d1))"
    using "3.prems" q(3) by (simp add: d1_def buffered_def a_def)
  have g: "fifo_guarded (n - 1) xs" using "3.prems" by simp
  have nth: "(ws @ written xs) ! nat a = ws ! nat a" using a_lt by (simp add: nth_append)
  have "drop (nat a) (ws @ written xs) = ws ! nat a # drop (nat (a + 1)) (ws @ written xs)"
    using a_lt a0 nth Cons_nth_drop_Suc [of "nat a" "ws @ written xs"]
    by (simp add: nat_add_distrib)
  with "3.IH" [of d1 ws, OF _ g n] q
  show ?case by (auto simp: st d1_def a_def)
qed simp_all

section \<open>FIFO order\<close>

text \<open>
  C1. On a buffer constructed with a positive row size and a non-negative row count,
  every interleaving of \<open>n\<close> writes and \<open>n\<close> consuming reads in which each read happens
  while something is unread runs without a panic; the reads return exactly the written
  elements, in write order, each with the flag \<open>true\<close>; and the next \<open>Read\<close> after them
  returns the zero value with the flag \<open>false\<close> and leaves the buffer as it is.
\<close>

theorem reads_observe_writes_in_order:
  fixes ops :: "('a::zero) op list"
  assumes "0 < rSize" "0 \<le> rows"
    and "fifo_guarded 0 ops" "length (written ops) = n" "nreads ops = n"
  shows "\<exists>d. runNew rSize rows ops = Inr d
           \<and> trace d = map (\<lambda>x. Elem x True) (written ops)
           \<and> Read (buf d) = Inr ((0, False), buf d)"
proof -
  obtain b :: "'a Buffer" where b: "NewWithSize rSize rows = Inr (Some b, None)"
      "represents b []" "AbsolutePos (read b) = 0"
    using NewWithSize_represents [OF assms(1,2)] by blast
  have z: "0 = nat (buffered (buf (start b)))"
    using represents_buffered [OF b(2)] b(3) by (simp add: start_def)
  have rep: "represents (buf (start b)) []" using b(2) by (simp add: start_def)
  obtain d where d: "run (start b) ops = Inr d" "represents (buf d) (written ops)"
      "trace d = map (\<lambda>x. Elem x True) (take (nreads ops) (written ops))"
      "AbsolutePos (read (buf d)) = int (nreads ops)"
    using fifo_run [OF rep assms(3) z] b(3) by (auto simp: start_def)
  have "buffered (buf d) = 0"
    using represents_buffered [OF d(2)] d(4) assms(4,5) by simp
  then have "Read (buf d) = Inr ((0, False), buf d)" by (simp add: Read_empty)
  with b d assms(4,5) show ?thesis by (simp add: runNew_def)
qed

theorem reads_observe_writes_in_order_witness:
  "\<exists>d. runNew 5 1 [opWrite (7::int), opWrite 8, opRead, opWrite 9, opRead, opRead] = Inr d
       \<and> trace d = [Elem 7 True, Elem 8 True, Elem 9 True]
       \<and> Read (buf d) = Inr ((0, False), buf d)"
  using reads_observe_writes_in_order
    [of 5 1 "[opWrite (7::int), opWrite 8, opRead, opWrite 9, opRead, opRead]" 3]
  by simp

section \<open>Checkpoint and rollback\<close>

lemma rw_run:
  fixes d :: "('a::zero) driver"
  assumes "represents (buf d) ws" "reads_and_writes ops"
  shows "\<exists>d'. run d ops = Inr d'
           \<and> represents (buf d') (ws @ written ops)
           \<and> state d' = state d
           \<and> startRow (buf d') = startRow (buf d)
           \<and> brow (buf d') = brow (buf d)"
  using assms
proof (induction ops arbitrary: d ws rule: reads_and_writes.induct)
  case 1
  then show ?case by simp
next
  case (2 x xs)
  obtain b' where b': "Write (buf d) x = Inr b'" "represents b' (ws @ [x])"
      "startRow b' = startRow (buf d)" "brow b' = brow (buf d)"
    using Write_represents [OF "2.prems"(1)] by blast
  define d1 where "d1 = d\<lparr>buf := b', nwrites := Suc (nwrites d)\<rparr>"
  have st: "step d (opWrite x) = Inr d1" by (simp add: b' d1_def)
  from "2.IH" [of d1 "ws @ [x]"] "2.prems" b'
  show ?case by (auto simp: st d1_def simp del: step.simps)
next
  case (3 xs)
  show ?case
  proof (cases "0 < buffered (buf d)")
    case True
    obtain q where q: "Read (buf d) = Inr ((ws ! nat (AbsolutePos (read (buf d))), True), (buf d)\<lparr>read := q\<rparr>)"
        "represents ((buf d)\<lparr>read := q\<rparr>) ws"
      using Read_represents [OF "3.prems"(1) True] by blast
    define d1 where "d1 = d\<lparr>buf := (buf d)\<lparr>read := q\<rparr>,
        trace := trace d @ [Elem (ws ! nat (AbsolutePos (read (buf d)))) True],
        nadvances := Suc (nadvances d)\<rparr>"
    have st: "step d opRead = Inr d1" by (simp add: q d1_def)
    from "3.IH" [of d1 ws] "3.prems" q
    show ?thesis by (auto simp: st d1_def simp del: step.simps)
  next
    case False
    define d1 where "d1 = d\<lparr>buf := buf d, trace := trace d @ [Elem 0 False],
        nadvances := nadvances d\<rparr>"
    have st: "step d opRead = Inr d1" using False by (simp add: Read_empty d1_def)
    from "3.IH" [of d1 ws] "3.prems"
    show ?thesis by (auto simp: st d1_def simp del: step.simps)
  qed
qed simp_all

lemma represents_rewind:
  assumes "represents b ws" "wfpos (brow b) p" "startRow b \<le> Row p"
    "AbsolutePos p \<le> int (length ws)"
  shows "represents (b\<lparr>read := p\<rparr>) ws"
  using assms unfolding represents_iff by (simp add: slot_def)

lemma fifo_guarded_replicate: "fifo_guarded k (replicate k opRead)"
  by (induction k) simp_all

lemma nreads_replicate [simp]: "nreads (replicate k opRead) = k"
  by (induction k) simp_all

lemma written_replicate [simp]: "written (replicate k opRead) = []"
  by (induction k) simp_all

lemma Next_of_Read:
  "Read b = Inr ((x, True), b') \<Longrightarrow> Next b = Inr ((x, True), b)"
  by (auto simp: Read_def Next_def buffered_def Buffered_def
      split: sum.splits prod.splits if_splits)

text \<open>
  C2, as the code has it. In a buffer that satisfies the storage invariant (so its read
  row is not behind \<open>startRow\<close>), take a checkpoint with \<open>State\<close>, run any sequence of
  writes and consuming reads (no commit), and call \<open>Rollback\<close> with the checkpoint:
  the run does not panic, \<open>Rollback\<close> returns nil, the read position is the one
  captured, and the storage invariant holds for the stream extended by the writes.
  If an element was unread at capture, \<open>Next\<close> returns that same element again. Reading
  on returns the stream from the captured position: what was unread at capture, then
  what was written after the checkpoint, in write order, and then no element.
\<close>

theorem rollback_restores_checkpoint:
  fixes b :: "('a::zero) Buffer"
  assumes "represents b ws" "reads_and_writes ops"
  shows "\<exists>d. run (start b) (opState # ops @ [opRollback]) = Inr d
           \<and> last (trace d) = RollbackErr None
           \<and> read (buf d) = read b
           \<and> represents (buf d) (ws @ written ops)
           \<and> (0 < Buffered b \<longrightarrow>
                 (\<exists>x. Next b = Inr ((x, True), b) \<and> Next (buf d) = Inr ((x, True), buf d)))
           \<and> (\<exists>d'. run d (replicate (length (ws @ written ops)
                                     - nat (AbsolutePos (read b))) opRead) = Inr d'
                 \<and> trace d' = trace d @ map (\<lambda>x. Elem x True)
                       (drop (nat (AbsolutePos (read b))) (ws @ written ops))
                 \<and> Read (buf d') = Inr ((0, False), buf d'))"
proof -
  define ws' where "ws' = ws @ written ops"
  define a where "a = AbsolutePos (read b)"
  define d0 where "d0 = (start b)\<lparr>state := State b\<rparr>"
  have a0: "0 \<le> a" using represents_read_nonneg [OF assms(1)] by (simp add: a_def)
  have a_le: "a \<le> int (length ws)" using represents_read_le [OF assms(1)] by (simp add: a_def)
  have rep0: "represents (buf d0) ws" using assms(1) by (simp add: d0_def start_def)
  obtain d1 where d1: "run d0 ops = Inr d1" "represents (buf d1) ws'"
      "state d1 = State b" "startRow (buf d1) = startRow b" "brow (buf d1) = brow b"
    using rw_run [OF rep0 assms(2)] by (auto simp: d0_def start_def ws'_def)
  have base: "startRow b \<le> Row (read b)" and wf: "wfpos (brow b) (read b)"
    using assms(1) by (simp_all add: represents_iff)
  have rb: "Rollback (buf d1) (State b) = ((buf d1)\<lparr>read := read b\<rparr>, None)"
    using base d1(4) by (simp add: Rollback_def State_def newState_def zero_def)
  define d2 where "d2 = d1\<lparr>buf := (buf d1)\<lparr>read := read b\<rparr>,
                              trace := trace d1 @ [RollbackErr None]\<rparr>"
  have s0: "step (start b) opState = Inr d0" by (simp add: d0_def start_def)
  have s2: "step d1 opRollback = Inr d2" using rb d1(3) by (simp add: d2_def)
  have run2: "run (start b) (opState # ops @ [opRollback]) = Inr d2"
    by (simp add: run_append s0 d1(1) s2 del: step.simps)
  have rep2: "represents (buf d2) ws'"
    using represents_rewind [OF d1(2), of "read b"] wf base a_le d1(4,5)
    by (simp add: d2_def a_def ws'_def)
  define k where "k = length ws' - nat a"
  have kb: "k = nat (buffered (buf d2))"
    using represents_buffered [OF rep2] a0 by (simp add: k_def d2_def a_def nat_diff_distrib')
  obtain d3 where d3: "run d2 (replicate k opRead) = Inr d3" "represents (buf d3) ws'"
      "trace d3 = trace d2 @ map (\<lambda>x. Elem x True) (take k (drop (nat a) ws'))"
      "AbsolutePos (read (buf d3)) = a + int k"
    using fifo_run [OF rep2 fifo_guarded_replicate kb] by (auto simp: d2_def a_def)
  have "a + int k = int (length ws')" using a0 a_le by (simp add: k_def ws'_def)
  then have "buffered (buf d3) = 0" using represents_buffered [OF d3(2)] d3(4) by simp
  then have eof: "Read (buf d3) = Inr ((0, False), buf d3)" by (simp add: Read_empty)
  have tk: "take k (drop (nat a) ws') = drop (nat a) ws'" by (simp add: k_def)
  have peek: "\<exists>x. Next b = Inr ((x, True), b) \<and> Next (buf d2) = Inr ((x, True), buf d2)"
    if pos: "0 < Buffered b"
  proof -
    have p1: "0 < buffered b" using pos by (simp add: Buffered_def buffered_def)
    have lt: "nat a < length ws" using p1 represents_buffered [OF assms(1)] a0 by (simp add: a_def)
    have p2: "0 < buffered (buf d2)"
      using represents_buffered [OF rep2] lt a0 by (simp add: d2_def a_def [symmetric] ws'_def)
    obtain q where "Read b = Inr ((ws ! nat a, True), b\<lparr>read := q\<rparr>)"
      using Read_represents [OF assms(1) p1] by (auto simp: a_def)
    then have n1: "Next b = Inr ((ws ! nat a, True), b)" by (rule Next_of_Read)
    obtain q' where "Read (buf d2) = Inr ((ws' ! nat a, True), (buf d2)\<lparr>read := q'\<rparr>)"
      using Read_represents [OF rep2 p2] by (auto simp: d2_def a_def)
    then have n2: "Next (buf d2) = Inr ((ws' ! nat a, True), buf d2)" by (rule Next_of_Read)
    have "ws' ! nat a = ws ! nat a" using lt by (simp add: ws'_def nth_append)
    with n1 n2 show ?thesis by simp
  qed
  show ?thesis
    using run2 rep2 d3 eof tk peek
    by (auto simp: d2_def ws'_def [symmetric] a_def [symmetric] k_def [symmetric])
qed

theorem rollback_restores_checkpoint_witness:
  "\<exists>d. run (start \<lparr>brow = 2, startRow = 0, buffers = [[1, 2], [3, 0::int]],
                     read = \<lparr>rowSize = 2, Row = 0, Col = 1\<rparr>,
                     write = \<lparr>rowSize = 2, Row = 1, Col = 1\<rparr>\<rparr>)
            (opState # [opRead, opRead, opWrite 4] @ [opRollback]) = Inr d
       \<and> last (trace d) = RollbackErr None
       \<and> read (buf d) = \<lparr>rowSize = 2, Row = 0, Col = 1\<rparr>
       \<and> (\<exists>d'. run d [opRead, opRead, opRead] = Inr d'
                \<and> trace d' = trace d @ [Elem 2 True, Elem 3 True, Elem 4 True])"
proof -
  let ?b = "\<lparr>brow = 2, startRow = 0, buffers = [[1, 2], [3, 0::int]],
             read = \<lparr>rowSize = 2, Row = 0, Col = 1\<rparr>,
             write = \<lparr>rowSize = 2, Row = 1, Col = 1\<rparr>\<rparr>"
  have h1: "represents ?b [1, 2, 3]"
    by (simp add: represents_def wfpos_def AbsolutePos_def slot_def upto.simps)
  have h2: "reads_and_writes [opRead, opRead, opWrite (4::int)]" by simp
  from rollback_restores_checkpoint [OF h1 h2]
  show ?thesis by (auto simp: AbsolutePos_def simp del: run.simps)
qed

text \<open>
  The claim as stated, for every reachable state, fails after \<open>Unread\<close> has stepped back
  behind a commit: with row size 2, write three elements, read two, commit (the first
  row is dropped, \<open>startRow\<close> is 1), unread (the read position is row 0 again); a
  checkpoint taken now is refused by \<open>Rollback\<close>'s guard at once.
\<close>

theorem rollback_after_unread_counterexample:
  "observed (runNew 2 1 [opWrite (1::int), opWrite 2, opWrite 3, opRead, opRead, opCommit,
                         opUnread, opState, opRollback])
     = Inr [Elem 1 True, Elem 2 True, RollbackErr (Some IllegalStateError)]"
  by code_simp

section \<open>Counting writes and read-advances\<close>

lemma constructed:
  fixes b :: "('a::zero) Buffer"
  assumes "NewWithSize rSize rows = Inr (Some b, None) \<or> NewWithSizeP rSize rows = Inr b"
  shows "0 < rSize \<and> 0 \<le> rows
         \<and> b = \<lparr>brow = rSize, startRow = 0,
                buffers = replicate (nat (rows + 1)) (replicate (nat rSize) 0),
                read = \<lparr>rowSize = rSize, Row = 0, Col = 0\<rparr>,
                write = \<lparr>rowSize = rSize, Row = 0, Col = 0\<rparr>\<rparr>"
proof -
  have pos: "0 < rSize" and rows: "0 \<le> rows"
    using assms by (auto simp: NewWithSize_def NewWithSizeP_def split: if_splits)
  then have "rows * rSize sdiv rSize = rows" by (simp add: sdiv_nonneg)
  with assms pos rows show ?thesis
    by (auto simp: NewWithSize_def NewWithSizeP_def Grow_eq split: if_splits)
qed















section \<open>Totality\<close>

lemma Write_safe:
  fixes b :: "('a::zero) Buffer"
  assumes r: "0 < brow b" and s0: "0 \<le> startRow b"
    and wfw: "wfpos (brow b) (write b)"
    and rows: "list_all (\<lambda>c. int (length c) = brow b) (buffers b)"
    and lo: "startRow b \<le> Row (write b)"
    and hi: "Row (write b) - startRow b < int (length (buffers b))"
  shows "\<exists>b'. Write b x = Inr b' \<and> read b' = read b \<and> brow b' = brow b
           \<and> startRow b' = startRow b \<and> wfpos (brow b) (write b')
           \<and> list_all (\<lambda>c. int (length c) = brow b) (buffers b')
           \<and> Row (write b) \<le> Row (write b')
           \<and> Row (write b') - startRow b < int (length (buffers b'))"
proof -
  define w where "w = AbsolutePos (write b)"
  have w0: "0 \<le> w" using wfpos_abs_nonneg [OF r wfw] by (simp add: w_def)
  have wrow: "w div brow b = Row (write b)" using wfpos_div [OF r wfw] by (simp add: w_def)
  define extra where "extra = nat ((w + 1) sdiv brow b + 1 - int (length (buffers b)))"
  define grown where "grown = buffers b @ replicate extra (replicate (nat (brow b)) (0::'a))"
  have G: "Grow b (AbsolutePos (write b) + 1) = Inr (b\<lparr>buffers := grown\<rparr>)"
    using r by (simp add: Grow_eq grown_def extra_def w_def)
  define row where "row = nat (Row (write b) - startRow b)"
  have row_lt: "row < length (buffers b)" using lo hi by (simp add: row_def)
  have row_lt': "row < length grown" using row_lt by (simp add: grown_def)
  define chunk where "chunk = buffers b ! row"
  have chunk: "grown ! row = chunk" using row_lt by (simp add: grown_def chunk_def nth_append)
  have clen: "int (length chunk) = brow b"
    using rows row_lt by (simp add: chunk_def list_all_length)
  have col: "0 \<le> Col (write b)" "Col (write b) < brow b" using wfw by (simp_all add: wfpos_def)
  obtain p where p: "Move (write b) 1 = Inr p" "wfpos (brow b) p" "AbsolutePos p = w + 1"
    using Move_wf [of "brow b" "write b" 1] r wfw w0 by (auto simp: wfpos_def w_def)
  define b' where
    "b' = b\<lparr>buffers := grown[row := chunk[nat (Col (write b)) := x]], write := p\<rparr>"
  have W: "Write b x = Inr b'"
    using lo row_lt' [unfolded row_def] col clen
    by (simp add: Write_def G bufferPos_def index_def assign_def
        chunk [unfolded row_def] p b'_def row_def)
  have prow: "Row p = (w + 1) div brow b" using wfpos_div [OF r p(2)] p(3) by simp
  have mono: "Row (write b) \<le> Row p"
    using zdiv_mono1 [of w "w + 1" "brow b"] r wrow prow by simp
  have "(w + 1) div brow b < int (length grown)"
    using r w0 by (simp add: grown_def extra_def sdiv_nonneg)
  then have glen: "Row p - startRow b < int (length grown)" using s0 prow by simp
  have rows': "list_all (\<lambda>c. int (length c) = brow b) (buffers b')"
    unfolding list_all_iff
  proof
    fix c assume "c \<in> set (buffers b')"
    then have "c \<in> insert (chunk[nat (Col (write b)) := x]) (set grown)"
      using set_update_subset_insert [of grown row] by (auto simp: b'_def)
    then show "int (length c) = brow b"
      using rows clen r by (auto simp: grown_def list_all_iff)
  qed
  show ?thesis
    using W p(2) rows' mono glen by (auto simp: b'_def)
qed

lemma Read_safe:
  fixes b :: "('a::zero) Buffer"
  assumes r: "0 < brow b"
    and wfr: "wfpos (brow b) (read b)" and wfw: "wfpos (brow b) (write b)"
    and rows: "list_all (\<lambda>c. int (length c) = brow b) (buffers b)"
    and hi: "Row (write b) - startRow b < int (length (buffers b))"
    and base: "startRow b \<le> Row (read b)"
  shows "\<exists>res q. Read b = Inr (res, b\<lparr>read := q\<rparr>) \<and> wfpos (brow b) q \<and> Row (read b) \<le> Row q
           \<and> Next b = Inr (if snd res then res else (0, False), b)"
proof (cases "0 < buffered b")
  case False
  then have "Read b = Inr ((0, False), b)" by (simp add: Read_def)
  moreover have "Next b = Inr ((0, False), b)"
    using False by (simp add: Next_def Buffered_def buffered_def)
  ultimately show ?thesis
    using wfr by (intro exI [of _ "(0::'a, False)"] exI [of _ "read b"]) simp
next
  case True
  define a where "a = AbsolutePos (read b)"
  have lt: "a < AbsolutePos (write b)" using True by (simp add: buffered_def a_def)
  have arow: "a div brow b = Row (read b)" using wfpos_div [OF r wfr] by (simp add: a_def)
  have a0: "0 \<le> a" using wfpos_abs_nonneg [OF r wfr] by (simp add: a_def)
  have rdrow: "Row (read b) \<le> Row (write b)"
    using zdiv_mono1 [of a "AbsolutePos (write b)" "brow b"] lt r arow wfpos_div [OF r wfw]
    by simp
  define row where "row = nat (Row (read b) - startRow b)"
  have row_lt: "row < length (buffers b)" using hi rdrow base by (simp add: row_def)
  have clen: "int (length (buffers b ! row)) = brow b"
    using rows row_lt by (simp add: list_all_length)
  have col: "0 \<le> Col (read b)" "Col (read b) < brow b" using wfr by (simp_all add: wfpos_def)
  obtain q where q: "Move (read b) 1 = Inr q" "wfpos (brow b) q" "AbsolutePos q = a + 1"
    using Move_wf [of "brow b" "read b" 1] r wfr a0 by (auto simp: wfpos_def a_def)
  have R: "Read b = Inr ((buffers b ! row ! nat (Col (read b)), True), b\<lparr>read := q\<rparr>)"
    using True base row_lt [unfolded row_def] col clen [unfolded row_def]
    by (simp add: Read_def bufferPos_def index_def q row_def)
  have N: "Next b = Inr ((buffers b ! row ! nat (Col (read b)), True), b)"
    using True base row_lt [unfolded row_def] col clen [unfolded row_def]
    by (simp add: Next_def Buffered_def buffered_def bufferPos_def index_def row_def)
  have "a div brow b \<le> (a + 1) div brow b" using r by (intro zdiv_mono1) simp_all
  then have "Row (read b) \<le> Row q" using wfpos_div [OF r q(2)] q(3) arow by simp
  with R N q(2) show ?thesis by auto
qed

lemma Commit_safe:
  assumes r: "0 < brow b"
    and wfr: "wfpos (brow b) (read b)" and wfw: "wfpos (brow b) (write b)"
    and rows: "list_all (\<lambda>c. int (length c) = brow b) (buffers b)"
    and hi: "Row (write b) - startRow b < int (length (buffers b))"
    and ok: "startRow b = 0" "0 \<le> Buffered b"
  shows "Commit b = Inr (b\<lparr>buffers := drop (nat (Row (read b))) (buffers b),
                          startRow := Row (read b)\<rparr>)
         \<and> Row (read b) \<le> Row (write b)
         \<and> list_all (\<lambda>c. int (length c) = brow b) (drop (nat (Row (read b))) (buffers b))
         \<and> Row (write b) - Row (read b) < int (length (drop (nat (Row (read b))) (buffers b)))"
proof -
  have le: "AbsolutePos (read b) \<le> AbsolutePos (write b)" using ok(2) by (simp add: Buffered_def)
  have rdrow: "Row (read b) \<le> Row (write b)"
    using zdiv_mono1 [OF le r] wfpos_div [OF r wfr] wfpos_div [OF r wfw] by simp
  have r0: "0 \<le> Row (read b)" using wfr by (simp add: wfpos_def)
  have C: "Commit b = Inr (b\<lparr>buffers := drop (nat (Row (read b))) (buffers b),
                          startRow := Row (read b)\<rparr>)"
    using rdrow r0 hi ok(1) by (simp add: Commit_def bufferPos_def)
  have "list_all (\<lambda>c. int (length c) = brow b) (drop (nat (Row (read b))) (buffers b))"
    using rows by (auto simp: list_all_iff dest: in_set_dropD)
  with C rdrow r0 hi ok(1) show ?thesis by simp
qed

lemma start_safe:
  fixes b :: "('a::zero) Buffer"
  assumes "NewWithSize rSize rows = Inr (Some b, None) \<or> NewWithSizeP rSize rows = Inr b"
  shows "safe (start b)"
  using constructed [OF assms]
  by (auto simp: safe_def start_def zeroState_def wfpos_def list_all_iff)

lemma step_safe:
  fixes d :: "('a::zero) driver"
  assumes "safe d" "allowed (buf d) x"
  shows "\<exists>d'. step d x = Inr d' \<and> safe d'"
proof -
  define b where "b = buf d"
  from assms(1) have r: "0 < brow b" and s0: "0 \<le> startRow b"
    and wfr: "wfpos (brow b) (read b)" and wfw: "wfpos (brow b) (write b)"
    and rows: "list_all (\<lambda>c. int (length c) = brow b) (buffers b)"
    and lo: "startRow b \<le> Row (write b)"
    and hi: "Row (write b) - startRow b < int (length (buffers b))"
    and base: "startRow b \<le> Row (read b)"
    and st: "init (state d) \<longrightarrow> wfpos (brow b) (sread (state d))"
    by (simp_all add: safe_def b_def)
  show ?thesis
  proof (cases x)
    case (opWrite v)
    obtain b' where b': "Write b v = Inr b'" "read b' = read b" "brow b' = brow b"
        "startRow b' = startRow b" "wfpos (brow b) (write b')"
        "list_all (\<lambda>c. int (length c) = brow b) (buffers b')"
        "Row (write b) \<le> Row (write b')"
        "Row (write b') - startRow b < int (length (buffers b'))"
      using Write_safe [OF r s0 wfw rows lo hi, of v] by blast
    then show ?thesis
      using r s0 wfr lo base st by (simp add: opWrite b_def [symmetric] safe_def)
  next
    case opRead
    obtain res q where q: "Read b = Inr (res, b\<lparr>read := q\<rparr>)" "wfpos (brow b) q"
        "Row (read b) \<le> Row q"
      using Read_safe [OF r wfr wfw rows hi base] by blast
    then show ?thesis
      using r s0 wfw rows lo hi base st
      by (cases res) (simp add: opRead b_def [symmetric] safe_def)
  next
    case opUnread
    define a where "a = AbsolutePos (read b)"
    obtain q where q: "Move (read b) (- 1) = Inr q" "wfpos (brow b) q"
        "AbsolutePos q = max 0 (a - 1)"
      using Move_wf [of "brow b" "read b" "- 1"] r wfr by (auto simp: wfpos_def a_def)
    have "startRow b \<le> Row q"
    proof (cases "startRow b = 0")
      case True
      then show ?thesis using q(2) by (simp add: wfpos_def)
    next
      case False
      then have "startRow b * brow b < a"
        using assms(2) by (simp add: allowed_def opUnread b_def a_def)
      then have "startRow b * brow b \<le> AbsolutePos q" using q(3) by simp
      from row_of_index [OF r this] wfpos_div [OF r q(2)] show ?thesis by simp
    qed
    then show ?thesis
      using q r s0 wfw rows lo hi st
      by (simp add: opUnread b_def [symmetric] safe_def Unread_def)
  next
    case opNext
    obtain res q where "Next b = Inr (if snd res then res else (0, False), b)"
      using Read_safe [OF r wfr wfw rows hi base] by blast
    then show ?thesis
      using assms(1) by (cases res) (auto simp: opNext b_def [symmetric] safe_def)
  next
    case opConsume
    define a where "a = AbsolutePos (read b)"
    have a0: "0 \<le> a" using wfpos_abs_nonneg [OF r wfr] by (simp add: a_def)
    obtain q where q: "Move (read b) 1 = Inr q" "wfpos (brow b) q" "AbsolutePos q = a + 1"
      using Move_wf [of "brow b" "read b" 1] r wfr a0 by (auto simp: wfpos_def a_def)
    have "a div brow b \<le> (a + 1) div brow b" using r by (intro zdiv_mono1) simp_all
    then have "startRow b \<le> Row q"
      using wfpos_div [OF r q(2)] wfpos_div [OF r wfr] q(3) base by (simp add: a_def)
    then show ?thesis
      using q r s0 wfw rows lo hi st
      by (simp add: opConsume b_def [symmetric] safe_def Consume_def)
  next
    case opState
    then show ?thesis
      using assms(1) by (simp add: safe_def State_def newState_def)
  next
    case opRollback
    then show ?thesis
      using assms(1) by (auto simp: safe_def Rollback_def zero_def)
  next
    case opCommit
    have ok: "startRow b = 0" "0 \<le> Buffered b"
      using assms(2) by (simp_all add: allowed_def opCommit b_def)
    from Commit_safe [OF r wfr wfw rows hi ok]
    show ?thesis
      using r wfr wfw st by (auto simp: opCommit b_def [symmetric] safe_def wfpos_def)
  next
    case (opGrow n)
    then show ?thesis
      using assms(1) by (auto simp: safe_def Grow_eq list_all_iff)
  next
    case opBuffered
    then show ?thesis using assms(1) by (simp add: safe_def)
  qed
qed

lemma run_safe:
  fixes d :: "('a::zero) driver"
  assumes "safe d" "disciplined d ops"
  shows "\<exists>d'. run d ops = Inr d' \<and> safe d'"
  using assms
proof (induction ops arbitrary: d)
  case Nil
  then show ?case by simp
next
  case (Cons x xs)
  from Cons.prems have a: "allowed (buf d) x" by simp
  obtain d1 where d1: "step d x = Inr d1" "safe d1"
    using step_safe [OF Cons.prems(1) a] by blast
  with Cons.prems(2) have "disciplined d1 xs" by simp
  from Cons.IH [OF d1(2) this] d1(1) show ?case by simp
qed


text \<open>
  C5, as the code has it. On a buffer from either constructor, every run of the
  operations that stays in the documented range of use (\<open>Unread\<close> not behind the first
  retained row; \<open>Commit\<close> with the read position not ahead of the write position, and
  while no earlier commit has moved \<open>startRow\<close>) completes without a panic. \<open>Write\<close>,
  \<open>Read\<close>, \<open>Next\<close>, \<open>Consume\<close>, \<open>Buffered\<close>, \<open>State\<close>, \<open>Rollback\<close> and \<open>Grow\<close> are under no
  restriction.
\<close>

theorem disciplined_runs_complete:
  fixes b :: "('a::zero) Buffer"
  assumes "NewWithSize rSize rows = Inr (Some b, None) \<or> NewWithSizeP rSize rows = Inr b"
    and "disciplined (start b) ops"
  shows "\<exists>d. run (start b) ops = Inr d"
  using run_safe [OF start_safe [OF assms(1)] assms(2)] by blast

theorem disciplined_runs_complete_witness:
  "\<exists>d. run (start \<lparr>brow = 2, startRow = 0, buffers = [[0, 0], [0, 0::int]],
                     read = \<lparr>rowSize = 2, Row = 0, Col = 0\<rparr>,
                     write = \<lparr>rowSize = 2, Row = 0, Col = 0\<rparr>\<rparr>)
            [opWrite 1, opWrite 2, opWrite 3, opWrite 4, opRead, opRead, opCommit, opState,
             opRead, opUnread, opRollback, opGrow 7, opNext, opConsume, opConsume, opConsume,
             opBuffered, opRead, opWrite 5] = Inr d"
proof -
  let ?b = "\<lparr>brow = 2, startRow = 0, buffers = [[0, 0], [0, 0::int]],
             read = \<lparr>rowSize = 2, Row = 0, Col = 0\<rparr>,
             write = \<lparr>rowSize = 2, Row = 0, Col = 0\<rparr>\<rparr>"
  let ?ops = "[opWrite 1, opWrite 2, opWrite 3, opWrite 4, opRead, opRead, opCommit, opState,
             opRead, opUnread, opRollback, opGrow 7, opNext, opConsume, opConsume, opConsume,
             opBuffered, opRead, opWrite 5 :: int op]"
  have h1: "NewWithSize 2 1 = Inr (Some ?b, None) \<or> NewWithSizeP 2 1 = Inr ?b"
    by code_simp
  have h2: "disciplined (start ?b) ?ops" by code_simp
  from disciplined_runs_complete [OF h1 h2] show ?thesis .
qed

text \<open>
  The claim as stated, for every sequence of these operations, fails when \<open>Unread\<close>
  steps back behind a commit: with row size 2, write three elements, read two, commit
  (the first row is dropped, \<open>startRow\<close> is 1), unread; the next \<open>Read\<close> indexes row
  \<open>0 - 1\<close> of the storage and panics.
\<close>

theorem read_after_unread_past_commit_counterexample:
  "observed (runNew 2 1 [opWrite (1::int), opWrite 2, opWrite 3, opRead, opRead, opCommit,
                         opUnread, opRead])
     = Inl IndexOutOfRange"
  by code_simp

section \<open>Idempotence of Grow and Commit\<close>

lemma sdiv_mono:
  fixes m n r :: int
  assumes "m \<le> n" "0 < r"
  shows "m sdiv r \<le> n sdiv r"
proof -
  consider "0 \<le> m" | "m < 0" "0 \<le> n" | "n < 0" using assms(1) by linarith
  then show ?thesis
  proof cases
    case 1
    with assms show ?thesis by (simp add: sdiv_nonneg zdiv_mono1)
  next
    case 2
    have "m sdiv r = - ((- m) div r)" using 2 assms(2) by (simp add: signed_divide_int_def sgn_if)
    moreover have "0 \<le> (- m) div r" using 2 assms(2) by (simp add: pos_imp_zdiv_nonneg_iff)
    moreover have "0 \<le> n sdiv r" using 2 assms(2) by (simp add: sdiv_nonneg pos_imp_zdiv_nonneg_iff)
    ultimately show ?thesis by simp
  next
    case 3
    then have m: "m < 0" using assms(1) by simp
    have "m sdiv r = - ((- m) div r)" using m assms(2) by (simp add: signed_divide_int_def sgn_if)
    moreover have "n sdiv r = - ((- n) div r)" using 3 assms(2) by (simp add: signed_divide_int_def sgn_if)
    moreover have "(- n) div r \<le> (- m) div r" using assms by (intro zdiv_mono1) simp_all
    ultimately show ?thesis by simp
  qed
qed

text \<open>
  Growth is idempotent: after \<open>Grow b n\<close>, a second \<open>Grow\<close> with the same or a smaller
  argument appends no row and returns the buffer as it is.
\<close>

lemma Grow_idempotent:
  fixes b :: "('a::zero) Buffer"
  assumes "0 < brow b" "Grow b n = Inr b1" "m \<le> n"
  shows "Grow b1 m = Inr b1"
proof -
  define k where "k = nat (n sdiv brow b + 1 - int (length (buffers b)))"
  have b1: "b1 = b\<lparr>buffers := buffers b @ replicate k (replicate (nat (brow b)) 0)\<rparr>"
    using assms(1,2) by (simp add: Grow_eq k_def)
  have "m sdiv brow b \<le> n sdiv brow b" using sdiv_mono [OF assms(3,1)] .
  then have "nat (m sdiv brow b1 + 1 - int (length (buffers b1))) = 0"
    by (simp add: b1 k_def)
  moreover have "0 < brow b1" using assms(1) by (simp add: b1)
  ultimately show ?thesis by (simp add: Grow_eq)
qed

text \<open>
  C4. Idempotence of \<open>Commit\<close> is what the code misses. \<open>Commit\<close> takes \<open>row\<close> from \<open>bufferPos\<close>,
  which has subtracted \<open>startRow\<close> already, and slices at \<open>row - startRow\<close>. After a
  commit that moved \<open>startRow\<close> to 1 (row size 2: write three elements, read two,
  commit), a second commit right away slices at \<open>0 - 1\<close> and panics; the run up to the
  first commit is fine.
\<close>

theorem Commit_twice_panics:
  "observed (runNew 2 1 [opWrite (1::int), opWrite 2, opWrite 3, opRead, opRead, opCommit])
     = Inr [Elem 1 True, Elem 2 True]
   \<and> observed (runNew 2 1 [opWrite (1::int), opWrite 2, opWrite 3, opRead, opRead, opCommit,
                           opCommit])
     = Inl SliceBoundsOutOfRange"
  by code_simp

end
